theory Spec2Isabelle
  imports Main "HOL-Library.Multiset"
begin

section \<open>The adventure game (src/adventure/adv_game.py)\<close>

subsection \<open>Faults and randomness\<close>

text \<open>
  The faults the modelled code can raise: \<open>IndexError\<close> is what \<^verbatim>\<open>random.choice\<close>
  raises on an empty sequence, \<open>EOFError\<close> is what \<^verbatim>\<open>input\<close> raises when the console
  input has ended.
\<close>

datatype error = IndexError | EOFError

text \<open>
  The generator behind Python's \<^verbatim>\<open>random\<close> module is an infinite supply of numbers,
  read front to back: \<open>g 0\<close> is the next one. \<open>randbelow n\<close> is the library's index
  draw below \<open>n\<close>; \<^verbatim>\<open>random.choice(seq)\<close> is \<^verbatim>\<open>seq[randbelow(len(seq))]\<close> and raises on
  an empty sequence; \<^verbatim>\<open>random.randint(a, b)\<close> is \<^verbatim>\<open>a + randbelow(b - a + 1)\<close>.
  Every theorem below holds for every supply \<open>g\<close>, that is for every outcome of the
  random draws.
\<close>

type_synonym rng = "nat \<Rightarrow> nat"

definition randbelow :: "nat \<Rightarrow> rng \<Rightarrow> nat \<times> rng" where
  "randbelow n g = (g 0 mod n, \<lambda>i. g (Suc i))"

definition random_choice :: "'a list \<Rightarrow> rng \<Rightarrow> error + ('a \<times> rng)" where
  "random_choice seq g =
     (if seq = [] then Inl IndexError
      else (case randbelow (length seq) g of (i, g') \<Rightarrow> Inr (seq ! i, g')))"

definition randint :: "int \<Rightarrow> int \<Rightarrow> rng \<Rightarrow> int \<times> rng" where
  "randint a b g = (case randbelow (nat (b - a + 1)) g of (i, g') \<Rightarrow> (a + int i, g'))"

subsection \<open>RandomItemSelector\<close>

text \<open>
  The class has two attributes, both lists of Python values, compared with \<open>=\<close> as
  Python's \<^verbatim>\<open>in\<close> compares with \<^verbatim>\<open>==\<close>. Where a value is handed back to a caller
  that tests it against \<^verbatim>\<open>None\<close>, the element type is an option type: \<open>None\<close> is
  Python's \<^verbatim>\<open>None\<close>, which a pool may hold like any other value, and \<open>Some x\<close> is any
  other object.
\<close>

record 'a selector =
  items :: "'a list"
  used_items :: "'a list"

text \<open>\<^verbatim>\<open>__init__(items=None)\<close>: a copy of the given collection, or the empty list.\<close>

definition RandomItemSelector :: "'a list option \<Rightarrow> 'a selector" where
  "RandomItemSelector its =
     \<lparr>items = (case its of None \<Rightarrow> [] | Some xs \<Rightarrow> xs), used_items = []\<rparr>"

text \<open>\<^verbatim>\<open>init\<close> calls \<^verbatim>\<open>__init__\<close> on the same object: both attributes are replaced.\<close>

definition init :: "'a list option \<Rightarrow> 'a selector \<Rightarrow> 'a selector" where
  "init its s = RandomItemSelector its"

definition add_item :: "'a \<Rightarrow> 'a selector \<Rightarrow> 'a selector" where
  "add_item item s = s\<lparr>items := items s @ [item]\<rparr>"

definition reset :: "'a selector \<Rightarrow> 'a selector" where
  "reset s = s\<lparr>used_items := []\<rparr>"

text \<open>
  The list comprehension of \<^verbatim>\<open>pull_random_item\<close>:
  \<^verbatim>\<open>[itm for itm in self.items if itm not in self.used_items]\<close>.
\<close>

definition available :: "'a selector \<Rightarrow> 'a list" where
  "available s = filter (\<lambda>itm. itm \<notin> set (used_items s)) (items s)"

text \<open>
  \<^verbatim>\<open>pull_random_item\<close> returns the value the method returns, the selector after the
  call and the rest of the random supply. The empty-pool branch returns \<^verbatim>\<open>None\<close> before
  any random draw; the drawing branch returns the drawn item itself, so a drawn item
  that is \<^verbatim>\<open>None\<close> is the same result as "no item".
\<close>

definition pull_random_item ::
  "'a option selector \<Rightarrow> rng \<Rightarrow> error + ('a option \<times> 'a option selector \<times> rng)" where
  "pull_random_item s g =
     (if items s = [] then Inr (None, s\<lparr>used_items := []\<rparr>, g)
      else
        let (s1, avail) =
              (if available s = [] then (reset s, items (reset s)) else (s, available s))
        in (case random_choice avail g of
              Inl e \<Rightarrow> Inl e
            | Inr (choice, g') \<Rightarrow>
                Inr (choice, s1\<lparr>used_items := used_items s1 @ [choice]\<rparr>, g')))"

text \<open>
  \<open>pulls n\<close> is \<open>n\<close> consecutive calls of \<^verbatim>\<open>pull_random_item\<close> on the same selector,
  with no other call in between; it returns the values in the order drawn.
\<close>

fun pulls ::
  "nat \<Rightarrow> 'a option selector \<Rightarrow> rng \<Rightarrow>
     error + ('a option list \<times> 'a option selector \<times> rng)" where
  "pulls 0 s g = Inr ([], s, g)"
| "pulls (Suc n) s g =
     (case pull_random_item s g of
        Inl e \<Rightarrow> Inl e
      | Inr (x, s1, g1) \<Rightarrow>
          (case pulls n s1 g1 of
             Inl e \<Rightarrow> Inl e
           | Inr (xs, s2, g2) \<Rightarrow> Inr (x # xs, s2, g2)))"

text \<open>
  The operations of the class after construction, as data, and a run of them on one
  selector. Each \<open>Pull\<close> carries the random supply its call reads. A fault would end
  the run.
\<close>

datatype 'a operation = Init "'a list option" | AddItem 'a | Pull rng | Reset

fun apply_operation ::
  "'a option operation \<Rightarrow> 'a option selector \<Rightarrow> error + 'a option selector" where
  "apply_operation (Init its) s = Inr (init its s)"
| "apply_operation (AddItem x) s = Inr (add_item x s)"
| "apply_operation (Pull g) s =
     (case pull_random_item s g of Inl e \<Rightarrow> Inl e | Inr (x, s', g') \<Rightarrow> Inr s')"
| "apply_operation Reset s = Inr (reset s)"

fun run_operations ::
  "'a option operation list \<Rightarrow> 'a option selector \<Rightarrow> error + 'a option selector" where
  "run_operations [] s = Inr s"
| "run_operations (op # ops) s =
     (case apply_operation op s of Inl e \<Rightarrow> Inl e | Inr s' \<Rightarrow> run_operations ops s')"

text \<open>
  What every selector built by the class's own operations satisfies: no value occurs
  twice in \<open>used_items\<close>, and every used value is in the pool.
\<close>

definition cycle_inv :: "'a selector \<Rightarrow> bool" where
  "cycle_inv s = (distinct (used_items s) \<and> set (used_items s) \<subseteq> set (items s))"

subsection \<open>SenseClueGenerator\<close>

text \<open>
  Python's truth value of an \<^verbatim>\<open>Optional[str]\<close>: \<^verbatim>\<open>None\<close> and the empty string are
  false, every other string is true. \<open>format_str\<close> is what an f-string writes for
  such a value, \<open>py_or\<close> is Python's \<^verbatim>\<open>or\<close>.
\<close>

fun truthy :: "string option \<Rightarrow> bool" where
  "truthy None = False"
| "truthy (Some s) = (s \<noteq> [])"

fun format_str :: "string option \<Rightarrow> string" where
  "format_str None = ''None''"
| "format_str (Some s) = s"

definition py_or :: "string option \<Rightarrow> string option \<Rightarrow> string option" where
  "py_or a b = (if truthy a then a else b)"

text \<open>
  The generator is a singleton holding two selectors; \<^verbatim>\<open>__new__\<close> fills them from the
  module-level lists of strings \<^verbatim>\<open>clues\<close> and \<^verbatim>\<open>sense_exp\<close>, taken here as arguments.
\<close>

record generator =
  clue_selector :: "string option selector"
  sense_selector :: "string option selector"

definition SenseClueGenerator :: "string list \<Rightarrow> string list \<Rightarrow> generator" where
  "SenseClueGenerator clues sense_exp =
     \<lparr>clue_selector = RandomItemSelector (Some (map Some clues)),
      sense_selector = RandomItemSelector (Some (map Some sense_exp))\<rparr>"

text \<open>
  The \<^verbatim>\<open>if\<close> chain of \<^verbatim>\<open>get_senseclue\<close> on the two drawn values. A branch that returns
  \<^verbatim>\<open>clue\<close> or \<^verbatim>\<open>sense\<close> is entered only when that value is a non-empty string.
\<close>

definition senseclue_text :: "string option \<Rightarrow> string option \<Rightarrow> string" where
  "senseclue_text clue sense =
     (if truthy clue \<and> truthy sense then format_str clue @ '' '' @ format_str sense
      else if truthy clue then (case clue of Some c \<Rightarrow> c | None \<Rightarrow> [])
      else if truthy sense then (case sense of Some c \<Rightarrow> c | None \<Rightarrow> [])
      else [])"

definition get_senseclue :: "generator \<Rightarrow> rng \<Rightarrow> error + (string \<times> generator \<times> rng)" where
  "get_senseclue gen g =
     (case pull_random_item (clue_selector gen) g of
        Inl e \<Rightarrow> Inl e
      | Inr (clue, cs, g1) \<Rightarrow>
          (case pull_random_item (sense_selector gen) g1 of
             Inl e \<Rightarrow> Inl e
           | Inr (sense, ss, g2) \<Rightarrow>
               Inr (senseclue_text clue sense,
                    \<lparr>clue_selector = cs, sense_selector = ss\<rparr>, g2)))"

text \<open>
  The composition rule in the words of the specification, where a draw is present
  when it is not \<open>None\<close>.
\<close>

fun spec_generate :: "string option \<Rightarrow> string option \<Rightarrow> string" where
  "spec_generate (Some c) (Some s) = c @ '' '' @ s"
| "spec_generate (Some c) None = c"
| "spec_generate None (Some s) = s"
| "spec_generate None None = []"

text \<open>A drawn value that Python's truth test treats as absent: the empty string.\<close>

fun nonempty :: "string option \<Rightarrow> string option" where
  "nonempty None = None"
| "nonempty (Some s) = (if s = [] then None else Some s)"

subsection \<open>Console and global state\<close>

text \<open>
  What the game reads and writes outside its objects: the random supply, the lines
  still to be read from the console, the texts written so far (one entry for each
  \<^verbatim>\<open>print\<close> call and each prompt), and the one generator instance that every
  \<^verbatim>\<open>DefaultEncounter\<close> shares.
\<close>

record world =
  rng :: rng
  stdin :: "string list"
  stdout :: "string list"
  generator :: generator

text \<open>Python's \<^verbatim>\<open>str\<close> of an integer, for the f-strings that print numbers.\<close>

definition digit_char :: "nat \<Rightarrow> char" where
  "digit_char d = ''0123456789'' ! d"

function str_nat :: "nat \<Rightarrow> string" where
  "str_nat n =
     (if n < 10 then [digit_char n] else str_nat (n div 10) @ [digit_char (n mod 10)])"
  by pat_completeness auto
termination
  by (relation "measure id") auto

declare str_nat.simps [simp del]

definition str_int :: "int \<Rightarrow> string" where
  "str_int i = (if i < 0 then CHR ''-'' # str_nat (nat (- i)) else str_nat (nat i))"

subsection \<open>Encounters and rooms\<close>

datatype encounter_outcome = CONTINUE | END

text \<open>
  \<^verbatim>\<open>Encounter\<close> is an abstract class with one concrete subclass in the program.
\<close>

datatype encounter = DefaultEncounter

text \<open>
  \<^verbatim>\<open>DefaultEncounter.run_encounter\<close> looks for an attribute \<^verbatim>\<open>pull_random_item\<close> on the
  generator. \<^verbatim>\<open>SenseClueGenerator\<close> has none (its selectors have), so \<^verbatim>\<open>getattr\<close> gives
  \<^verbatim>\<open>None\<close>, which is not callable, and the \<^verbatim>\<open>else\<close> branch runs: it draws from the two
  selectors itself, prints the text and returns \<open>CONTINUE\<close>.
\<close>

definition encounter_text :: "string option \<Rightarrow> string option \<Rightarrow> string" where
  "encounter_text clue sense =
     (if truthy clue \<and> truthy sense then format_str clue @ '' '' @ format_str sense
      else (case py_or (py_or clue sense) (Some []) of Some t \<Rightarrow> t | None \<Rightarrow> ''None''))"

fun run_encounter :: "encounter \<Rightarrow> world \<Rightarrow> error + (encounter_outcome \<times> world)" where
  "run_encounter DefaultEncounter w =
     (case pull_random_item (clue_selector (generator w)) (rng w) of
        Inl e \<Rightarrow> Inl e
      | Inr (clue, cs, g1) \<Rightarrow>
          (case pull_random_item (sense_selector (generator w)) g1 of
             Inl e \<Rightarrow> Inl e
           | Inr (sense, ss, g2) \<Rightarrow>
               Inr (CONTINUE,
                    w\<lparr>rng := g2,
                      generator := \<lparr>clue_selector = cs, sense_selector = ss\<rparr>,
                      stdout := stdout w @ [encounter_text clue sense]\<rparr>)))"

text \<open>
  A \<^verbatim>\<open>Room\<close> object defines no \<^verbatim>\<open>__eq__\<close>, so Python compares rooms by object
  identity; \<open>room_id\<close> is that identity.
\<close>

record room =
  room_id :: nat
  name :: string
  encounter :: encounter

definition visit_room :: "room \<Rightarrow> world \<Rightarrow> error + (encounter_outcome \<times> world)" where
  "visit_room rm w = run_encounter (encounter rm) w"

definition rooms :: "room list" where
  "rooms =
     [\<lparr>room_id = 0, name = ''Throne Room'', encounter = DefaultEncounter\<rparr>,
      \<lparr>room_id = 1, name = ''Armory'', encounter = DefaultEncounter\<rparr>,
      \<lparr>room_id = 2, name = ''Library'', encounter = DefaultEncounter\<rparr>,
      \<lparr>room_id = 3, name = ''Great Hall'', encounter = DefaultEncounter\<rparr>,
      \<lparr>room_id = 4, name = ''Solar'', encounter = DefaultEncounter\<rparr>,
      \<lparr>room_id = 5, name = ''Dungeon'', encounter = DefaultEncounter\<rparr>]"

subsection \<open>Castle\<close>

record castle =
  room_selector :: "room option selector"

text \<open>
  \<^verbatim>\<open>Castle(rooms=None)\<close> takes any collection, or falls back to the module-level list
  of \<^verbatim>\<open>Room\<close> objects.
\<close>

definition Castle :: "room option list option \<Rightarrow> castle" where
  "Castle rs =
     \<lparr>room_selector =
        RandomItemSelector (Some (case rs of Some l \<Rightarrow> l | None \<Rightarrow> map Some rooms))\<rparr>"

text \<open>
  The prompt loop of \<^verbatim>\<open>select_door\<close>, one round for each console line. \<open>to_int\<close> stands
  for Python's \<^verbatim>\<open>int(line.strip())\<close>, with \<open>None\<close> for its \<^verbatim>\<open>ValueError\<close>; the theorems
  hold for every such function. When the console has no line left, \<^verbatim>\<open>input\<close> raises
  \<^verbatim>\<open>EOFError\<close>, which \<^verbatim>\<open>select_door\<close> does not catch.
\<close>

fun door_prompt ::
  "(string \<Rightarrow> int option) \<Rightarrow> int \<Rightarrow> string list \<Rightarrow> string list \<Rightarrow>
     error + (int \<times> string list \<times> string list)" where
  "door_prompt to_int num_doors [] out = Inl EOFError"
| "door_prompt to_int num_doors (line # rest) out =
     (let out1 = out @ [''Choose a door (1-'' @ str_int num_doors @ ''): '']
      in case to_int line of
           None \<Rightarrow>
             door_prompt to_int num_doors rest
               (out1 @ [''Invalid input: please enter a numeric value.''])
         | Some choice \<Rightarrow>
             if 1 \<le> choice \<and> choice \<le> num_doors
             then Inr (choice, rest,
                    out1 @ [''You open door '' @ str_int choice @ ''.'' @ [CHR 0x0A]
                              @ replicate 40 (CHR ''-'')])
             else door_prompt to_int num_doors rest
                    (out1 @ [''Invalid selection: enter a number between 1 and ''
                               @ str_int num_doors @ ''.'']))"

definition select_door :: "(string \<Rightarrow> int option) \<Rightarrow> world \<Rightarrow> error + (int \<times> world)" where
  "select_door to_int w =
     (case randint 2 4 (rng w) of
        (num_doors, g) \<Rightarrow>
          (case door_prompt to_int num_doors (stdin w)
                  (stdout w @ [CHR 0x0A # replicate 40 (CHR ''=''),
                               ''There are '' @ str_int num_doors @ '' doors before you.''])
           of Inl e \<Rightarrow> Inl e
            | Inr (choice, inp, out) \<Rightarrow>
                Inr (choice, w\<lparr>rng := g, stdin := inp, stdout := out\<rparr>)))"

text \<open>
  The two continuations of \<^verbatim>\<open>next_room\<close> after the draw: the branch for
  \<^verbatim>\<open>room is None\<close>, and the rest of the method for a drawn room.
\<close>

definition no_rooms_available ::
  "castle \<Rightarrow> world \<Rightarrow> error + (encounter_outcome \<times> castle \<times> world)" where
  "no_rooms_available c w =
     Inr (END, c\<lparr>room_selector := reset (room_selector c)\<rparr>,
          w\<lparr>stdout := stdout w @ [''No rooms available. Resetting room selector.'']\<rparr>)"

definition enter_room ::
  "room \<Rightarrow> castle \<Rightarrow> world \<Rightarrow> error + (encounter_outcome \<times> castle \<times> world)" where
  "enter_room rm c w =
     (case visit_room rm (w\<lparr>stdout := stdout w @ [''You step through and enter: '' @ name rm]\<rparr>) of
        Inl e \<Rightarrow> Inl e
      | Inr (result, w') \<Rightarrow>
          Inr (result, c, w'\<lparr>stdout := stdout w' @ [replicate 40 (CHR ''='') @ [CHR 0x0A]]\<rparr>))"

definition next_room ::
  "(string \<Rightarrow> int option) \<Rightarrow> castle \<Rightarrow> world \<Rightarrow>
     error + (encounter_outcome \<times> castle \<times> world)" where
  "next_room to_int c w =
     (case select_door to_int w of
        Inl e \<Rightarrow> Inl e
      | Inr (door, w1) \<Rightarrow>
          (case pull_random_item (room_selector c) (rng w1) of
             Inl e \<Rightarrow> Inl e
           | Inr (room, sel, g) \<Rightarrow>
               (case room of
                  None \<Rightarrow> no_rooms_available (c\<lparr>room_selector := sel\<rparr>) (w1\<lparr>rng := g\<rparr>)
                | Some rm \<Rightarrow> enter_room rm (c\<lparr>room_selector := sel\<rparr>) (w1\<lparr>rng := g\<rparr>))))"

definition castle_reset :: "castle \<Rightarrow> world \<Rightarrow> castle \<times> world" where
  "castle_reset c w =
     (c\<lparr>room_selector := reset (room_selector c)\<rparr>,
      w\<lparr>stdout := stdout w
           @ [''Room selector has been reset; all rooms are available again.'']\<rparr>)"

subsection \<open>Basic facts about the selector\<close>

lemma randbelow_less: "0 < n \<Longrightarrow> fst (randbelow n g) < n"
  by (simp add: randbelow_def)

lemma random_choice_nonempty:
  "seq \<noteq> [] \<Longrightarrow> \<exists>c g'. random_choice seq g = Inr (c, g') \<and> c \<in> set seq"
  by (simp add: random_choice_def randbelow_def)

lemma pull_random_item_empty:
  "items s = [] \<Longrightarrow> pull_random_item s g = Inr (None, s\<lparr>used_items := []\<rparr>, g)"
  by (simp add: pull_random_item_def)

lemma pull_random_item_fresh:
  assumes "items s \<noteq> []" and "available s \<noteq> []"
  shows "\<exists>c g'. random_choice (available s) g = Inr (c, g') \<and> c \<in> set (available s) \<and>
           pull_random_item s g = Inr (c, s\<lparr>used_items := used_items s @ [c]\<rparr>, g')"
proof -
  from random_choice_nonempty [OF assms(2)] obtain c g'
    where c: "random_choice (available s) g = Inr (c, g')" "c \<in> set (available s)"
    by blast
  with assms show ?thesis
    by (simp add: pull_random_item_def)
qed

lemma pull_random_item_exhausted:
  assumes "items s \<noteq> []" and "available s = []"
  shows "\<exists>c g'. random_choice (items s) g = Inr (c, g') \<and> c \<in> set (items s) \<and>
           pull_random_item s g = Inr (c, s\<lparr>used_items := [c]\<rparr>, g')"
proof -
  from random_choice_nonempty [OF assms(1)] obtain c g'
    where c: "random_choice (items s) g = Inr (c, g')" "c \<in> set (items s)"
    by blast
  with assms show ?thesis
    by (simp add: pull_random_item_def reset_def)
qed

lemma pull_random_item_total:
  "\<exists>x s' g'. pull_random_item s g = Inr (x, s', g')"
proof (cases "items s = []")
  case True
  then show ?thesis by (simp add: pull_random_item_empty)
next
  case False
  show ?thesis
  proof (cases "available s = []")
    case True
    with False pull_random_item_exhausted [of s g] show ?thesis by blast
  next
    case avail: False
    with False pull_random_item_fresh [of s g] show ?thesis by blast
  qed
qed

subsection \<open>Claims about single operations\<close>

text \<open>
  Claim C3. On a selector whose items list is empty, \<^verbatim>\<open>pull_random_item\<close> returns
  normally (no fault), the value it returns is \<open>None\<close>, and the selector it leaves
  has \<open>used_items\<close> cleared; no random number is consumed.
\<close>

theorem pull_random_item_empty_pool:
  assumes "items s = []"
  shows "pull_random_item s g = Inr (None, s\<lparr>used_items := []\<rparr>, g)"
  using assms by (simp add: pull_random_item_def)

theorem pull_random_item_empty_pool_witness:
  "items \<lparr>items = [], used_items = [Some (3::nat), Some 4]\<rparr> = [] \<and>
   pull_random_item \<lparr>items = [], used_items = [Some (3::nat), Some 4]\<rparr> (\<lambda>i. i) =
     Inr (None, \<lparr>items = [], used_items = []\<rparr>, \<lambda>i. i)"
  using pull_random_item_empty_pool
    [of "\<lparr>items = [], used_items = [Some (3::nat), Some 4]\<rparr>" "\<lambda>i. i"]
  by simp

text \<open>
  Claim C7. \<^verbatim>\<open>reset\<close> clears \<open>used_items\<close> and changes nothing else: the items list is
  the same before and after, and every item of the pool is available again.
\<close>

theorem reset_clears_used_only:
  "used_items (reset s) = [] \<and> items (reset s) = items s \<and>
   reset s = s\<lparr>used_items := []\<rparr> \<and> available (reset s) = items s"
  by (simp add: reset_def available_def)

text \<open>
  Claim C10. \<^verbatim>\<open>pull_random_item\<close> always returns normally, and the items list of the
  selector it leaves is the items list it started with, on the empty-pool branch and
  on the drawing branch alike.
\<close>

theorem pull_random_item_keeps_items:
  "\<exists>x s' g'. pull_random_item s g = Inr (x, s', g') \<and> items s' = items s"
proof (cases "items s = []")
  case True
  then show ?thesis by (simp add: pull_random_item_empty)
next
  case False
  show ?thesis
  proof (cases "available s = []")
    case True
    with False pull_random_item_exhausted [of s g] show ?thesis by auto
  next
    case avail: False
    with False pull_random_item_fresh [of s g] show ?thesis by auto
  qed
qed

subsection \<open>Draws within one cycle\<close>

lemma available_after_draw:
  "available (s\<lparr>used_items := used_items s @ [c]\<rparr>) = filter (\<lambda>x. x \<noteq> c) (available s)"
  by (auto simp: available_def intro: filter_cong)

lemma filter_neq_remove1: "distinct xs \<Longrightarrow> filter (\<lambda>x. x \<noteq> c) xs = remove1 c xs"
  by (induction xs) (auto simp: remove1_idem)

lemma length_available_after_draw:
  assumes "distinct (items s)" and "c \<in> set (available s)"
  shows "Suc (length (available (s\<lparr>used_items := used_items s @ [c]\<rparr>))) = length (available s)"
proof -
  have d: "distinct (available s)" using assms(1) by (simp add: available_def)
  from assms(2) have "0 < length (available s)" by (cases "available s") auto
  with d assms(2) show ?thesis
    by (simp add: available_after_draw filter_neq_remove1 length_remove1)
qed

lemma pulls_while_available:
  assumes "distinct (items s)" and "n \<le> length (available s)"
  shows "\<exists>xs s' g'. pulls n s g = Inr (xs, s', g') \<and> length xs = n \<and>
           distinct xs \<and> set xs \<subseteq> set (available s) \<and>
           items s' = items s \<and> used_items s' = used_items s @ xs"
  using assms
proof (induction n arbitrary: s g)
  case 0
  then show ?case by simp
next
  case (Suc n)
  from Suc.prems(2) have av: "available s \<noteq> []" by auto
  then have ne: "items s \<noteq> []" by (auto simp: available_def)
  from pull_random_item_fresh [OF ne av, of g] obtain c g1
    where c: "c \<in> set (available s)"
      and p: "pull_random_item s g = Inr (c, s\<lparr>used_items := used_items s @ [c]\<rparr>, g1)"
    by blast
  let ?s1 = "s\<lparr>used_items := used_items s @ [c]\<rparr>"
  have d1: "distinct (items ?s1)" using Suc.prems(1) by simp
  have l1: "n \<le> length (available ?s1)"
    using length_available_after_draw [OF Suc.prems(1) c] Suc.prems(2) by simp
  from Suc.IH [OF d1 l1, of g1] obtain xs s' g'
    where r: "pulls n ?s1 g1 = Inr (xs, s', g')" "length xs = n" "distinct xs"
      "set xs \<subseteq> set (available ?s1)" "items s' = items ?s1"
      "used_items s' = used_items ?s1 @ xs"
    by blast
  from r(4) have nc: "c \<notin> set xs" and sub: "set xs \<subseteq> set (available s)"
    by (auto simp: available_after_draw)
  have "pulls (Suc n) s g = Inr (c # xs, s', g')"
    using p r(1) by simp
  moreover have "length (c # xs) = Suc n" using r(2) by simp
  moreover have "distinct (c # xs)" using r(3) nc by simp
  moreover have "set (c # xs) \<subseteq> set (available s)" using c sub by simp
  moreover have "items s' = items s" using r(5) by simp
  moreover have "used_items s' = used_items s @ (c # xs)" using r(6) by simp
  ultimately show ?case by blast
qed

lemma distinct_full_length_perm:
  assumes "distinct xs" and "distinct ys" and "set xs \<subseteq> set ys" and "length xs = length ys"
  shows "mset xs = mset ys"
proof -
  have "card (set xs) = card (set ys)"
    using assms(1,2,4) by (simp add: distinct_card)
  with assms(3) have "set xs = set ys"
    by (simp add: card_subset_eq)
  with assms(1,2) show ?thesis
    by (simp add: set_eq_iff_mset_eq_distinct)
qed

text \<open>
  Claim C1. For a pool of \<open>N\<close> distinct items and a selector at the start of a cycle
  (no item of the pool used yet, as after construction, re-initialisation or reset; or
  every item used, as after a completed cycle), \<open>N\<close> consecutive calls of
  \<^verbatim>\<open>pull_random_item\<close> all return normally, each returns an item, and the \<open>N\<close> returned
  values are a permutation of the pool: no value repeats before the pool is
  exhausted. This holds for every outcome of the random draws.
\<close>

theorem pulls_permutation:
  assumes "distinct (items s)"
    and "set (items s) \<inter> set (used_items s) = {} \<or> set (items s) \<subseteq> set (used_items s)"
  shows "\<exists>xs s' g'. pulls (length (items s)) s g = Inr (xs, s', g') \<and>
           mset xs = mset (items s) \<and> distinct xs"
proof (cases "available s = []")
  case False
  with assms(2) have "set (items s) \<inter> set (used_items s) = {}"
    by (auto simp: available_def filter_empty_conv)
  then have full: "available s = items s"
    by (auto simp: available_def filter_id_conv)
  then have "length (items s) \<le> length (available s)" by simp
  from pulls_while_available [OF assms(1) this, of g] obtain xs s' g'
    where r: "pulls (length (items s)) s g = Inr (xs, s', g')"
      "length xs = length (items s)" "distinct xs" "set xs \<subseteq> set (available s)"
    by blast
  from distinct_full_length_perm [OF r(3) assms(1) _ r(2)] r(4) full
  have "mset xs = mset (items s)" by simp
  with r(1,3) show ?thesis by blast
next
  case True
  show ?thesis
  proof (cases "items s = []")
    case True
    then show ?thesis by simp
  next
    case False
    then obtain n where n: "length (items s) = Suc n" by (cases "items s") auto
    from pull_random_item_exhausted [OF False True, of g] obtain c g1
      where c: "c \<in> set (items s)"
        and p: "pull_random_item s g = Inr (c, s\<lparr>used_items := [c]\<rparr>, g1)"
      by blast
    let ?s1 = "s\<lparr>used_items := [c]\<rparr>"
    have av1: "available ?s1 = filter (\<lambda>x. x \<noteq> c) (items s)"
      by (simp add: available_def)
    have d1: "distinct (items ?s1)" using assms(1) by simp
    have "length (available ?s1) = n"
      using assms(1) c n by (simp add: av1 filter_neq_remove1 length_remove1)
    then have l1: "n \<le> length (available ?s1)" by simp
    from pulls_while_available [OF d1 l1, of g1] obtain xs s' g'
      where r: "pulls n ?s1 g1 = Inr (xs, s', g')" "length xs = n" "distinct xs"
        "set xs \<subseteq> set (available ?s1)"
      by blast
    from r(4) have nc: "c \<notin> set xs" and sub: "set xs \<subseteq> set (items s)"
      by (auto simp: av1)
    have run: "pulls (length (items s)) s g = Inr (c # xs, s', g')"
      using p r(1) n by simp
    have dl: "distinct (c # xs)" using r(3) nc by simp
    have "set (c # xs) \<subseteq> set (items s)" using c sub by simp
    moreover have "length (c # xs) = length (items s)" using r(2) n by simp
    ultimately have "mset (c # xs) = mset (items s)"
      using distinct_full_length_perm [OF dl assms(1)] by blast
    with run dl show ?thesis by blast
  qed
qed

theorem pulls_permutation_witness:
  "distinct (items (RandomItemSelector (Some [Some (10::nat), Some 20, Some 30]))) \<and>
   set (items (RandomItemSelector (Some [Some (10::nat), Some 20, Some 30])))
     \<inter> set (used_items (RandomItemSelector (Some [Some (10::nat), Some 20, Some 30]))) = {} \<and>
   (\<exists>xs s' g'.
       pulls (length (items (RandomItemSelector (Some [Some (10::nat), Some 20, Some 30]))))
         (RandomItemSelector (Some [Some (10::nat), Some 20, Some 30])) (\<lambda>i. 2 * i + 1)
       = Inr (xs, s', g') \<and>
       mset xs = mset (items (RandomItemSelector (Some [Some (10::nat), Some 20, Some 30]))) \<and> distinct xs) \<and>
   fst (projr (pulls 3 (RandomItemSelector (Some [Some (10::nat), Some 20, Some 30])) (\<lambda>i. 2 * i + 1)))
     = [Some 20, Some 30, Some 10]"
proof -
  have h1: "distinct (items (RandomItemSelector (Some [Some (10::nat), Some 20, Some 30])))"
    by (simp add: RandomItemSelector_def)
  have h2: "set (items (RandomItemSelector (Some [Some (10::nat), Some 20, Some 30])))
     \<inter> set (used_items (RandomItemSelector (Some [Some (10::nat), Some 20, Some 30]))) = {}"
    by (simp add: RandomItemSelector_def)
  have run: "fst (projr (pulls 3 (RandomItemSelector (Some [Some (10::nat), Some 20, Some 30])) (\<lambda>i. 2 * i + 1)))
     = [Some 20, Some 30, Some 10]"
    by code_simp
  note c = pulls_permutation [OF h1 disjI1 [OF h2], of "\<lambda>i. 2 * i + 1"]
  show ?thesis
    by (rule conjI [OF h1 conjI [OF h2 conjI [OF c run]]])
qed

subsection \<open>Exhaustion and exclusion by value\<close>

text \<open>
  Claim C2. On a non-empty pool, when every item value is already in \<open>used_items\<close> at
  the start of a call, \<^verbatim>\<open>pull_random_item\<close> clears \<open>used_items\<close> and draws from the
  full items list: the value returned is the element of \<open>items\<close> at the index the
  random draw gives for the length of the whole list, and \<open>used_items\<close> afterwards
  holds that value alone.
\<close>

theorem pull_random_item_after_exhaustion:
  assumes "items s \<noteq> []" and "set (items s) \<subseteq> set (used_items s)"
  shows "\<exists>c g'. random_choice (items s) g = Inr (c, g') \<and>
           c = items s ! (g 0 mod length (items s)) \<and> c \<in> set (items s) \<and>
           pull_random_item s g = Inr (c, s\<lparr>used_items := [c]\<rparr>, g')"
proof -
  from assms(2) have "available s = []"
    by (auto simp: available_def filter_empty_conv)
  from pull_random_item_exhausted [OF assms(1) this, of g] obtain c g'
    where r: "random_choice (items s) g = Inr (c, g')" "c \<in> set (items s)"
      "pull_random_item s g = Inr (c, s\<lparr>used_items := [c]\<rparr>, g')"
    by blast
  from r(1) assms(1) have "c = items s ! (g 0 mod length (items s))"
    by (auto simp: random_choice_def randbelow_def)
  with r show ?thesis by blast
qed

theorem pull_random_item_after_exhaustion_witness:
  "items \<lparr>items = [Some (10::nat), Some 20, Some 30],
          used_items = [Some 20, Some 30, Some 10]\<rparr> \<noteq> [] \<and>
   set (items \<lparr>items = [Some (10::nat), Some 20, Some 30],
               used_items = [Some 20, Some 30, Some 10]\<rparr>)
     \<subseteq> set (used_items \<lparr>items = [Some (10::nat), Some 20, Some 30],
                          used_items = [Some 20, Some 30, Some 10]\<rparr>) \<and>
   (\<exists>g'. pull_random_item
           \<lparr>items = [Some (10::nat), Some 20, Some 30],
            used_items = [Some 20, Some 30, Some 10]\<rparr> (\<lambda>i. i + 1)
      = Inr (Some 20, \<lparr>items = [Some 10, Some 20, Some 30], used_items = [Some 20]\<rparr>, g'))"
proof -
  let ?s = "\<lparr>items = [Some (10::nat), Some 20, Some 30],
            used_items = [Some 20, Some 30, Some 10]\<rparr>"
  have h1: "items ?s \<noteq> []" by simp
  have h2: "set (items ?s) \<subseteq> set (used_items ?s)" by simp
  from pull_random_item_after_exhaustion [OF h1 h2, of "\<lambda>i. i + 1"] h1 h2
  show ?thesis by auto
qed

lemma used_not_available: "v \<in> set (used_items s) \<Longrightarrow> v \<notin> set (available s)"
  by (simp add: available_def)

lemma pull_random_item_drawn_used:
  assumes "items s \<noteq> []" and "pull_random_item s g = Inr (v, s1, g1)"
  shows "v \<in> set (used_items s1)"
proof (cases "available s = []")
  case True
  with assms pull_random_item_exhausted [of s g] show ?thesis by auto
next
  case False
  with assms pull_random_item_fresh [of s g] show ?thesis by auto
qed

lemma pulls_total: "\<exists>xs s' g'. pulls n s g = Inr (xs, s', g')"
proof (induction n arbitrary: s g)
  case 0
  then show ?case by simp
next
  case (Suc n)
  from pull_random_item_total [of s g] obtain x s1 g1
    where p: "pull_random_item s g = Inr (x, s1, g1)" by blast
  from Suc.IH [of s1 g1] obtain xs s' g' where "pulls n s1 g1 = Inr (xs, s', g')" by blast
  with p show ?case by simp
qed

lemma pulls_keep_excluded:
  assumes "v \<in> set (used_items s)" and "n \<le> card (set (available s))"
    and "pulls n s g = Inr (xs, s', g')"
  shows "v \<notin> set xs \<and> v \<in> set (used_items s')"
  using assms
proof (induction n arbitrary: s g xs s' g')
  case 0
  then show ?case by simp
next
  case (Suc n)
  from Suc.prems(2) have av: "available s \<noteq> []" by auto
  then have ne: "items s \<noteq> []" by (auto simp: available_def)
  from pull_random_item_fresh [OF ne av, of g] obtain c g1
    where c: "c \<in> set (available s)"
      and p: "pull_random_item s g = Inr (c, s\<lparr>used_items := used_items s @ [c]\<rparr>, g1)"
    by blast
  let ?s1 = "s\<lparr>used_items := used_items s @ [c]\<rparr>"
  from c Suc.prems(1) have cv: "c \<noteq> v" by (auto simp: available_def)
  have u1: "v \<in> set (used_items ?s1)" using Suc.prems(1) by simp
  have rest: "set (available ?s1) = set (available s) - {c}"
    by (auto simp: available_after_draw)
  have "Suc (card (set (available s) - {c})) = card (set (available s))"
    using c by (intro card_Suc_Diff1) simp_all
  with rest Suc.prems(2) have n1: "n \<le> card (set (available ?s1))" by simp
  from pulls_total [of n ?s1 g1] obtain xs' s'' g''
    where r: "pulls n ?s1 g1 = Inr (xs', s'', g'')" by blast
  with p Suc.prems(3) have xs: "xs = c # xs'" and s': "s'' = s'"
    by simp_all
  from Suc.IH [OF u1 n1 r] have "v \<notin> set xs'" and "v \<in> set (used_items s'')"
    by simp_all
  with cv xs s' show ?case by simp
qed

text \<open>
  Claim C5. Drawn items are excluded by value. Once a call has returned the value
  \<open>v\<close>, no entry of the pool equal to \<open>v\<close> is available, however many such entries
  the pool holds; and in any number of further consecutive calls that stay within
  the cycle (at most as many calls as distinct values are still available, so that no
  reset happens) \<open>v\<close> is not returned and stays unavailable.
\<close>

theorem drawn_value_excluded_by_equality:
  assumes "pull_random_item s g = Inr (v, s1, g1)"
  shows "v \<notin> set (available s1) \<and>
         (\<forall>n g' xs s2 g2.
             n \<le> card (set (available s1)) \<and> pulls n s1 g' = Inr (xs, s2, g2) \<longrightarrow>
             v \<notin> set xs \<and> v \<notin> set (available s2))"
proof (cases "items s = []")
  case True
  with assms have e: "available s1 = []"
    by (auto simp: pull_random_item_empty available_def)
  have "v \<notin> set xs \<and> v \<notin> set (available s2)"
    if "n \<le> card (set (available s1))" and "pulls n s1 g' = Inr (xs, s2, g2)"
    for n g' xs s2 g2
    using that e by simp
  with e show ?thesis by simp
next
  case False
  from pull_random_item_drawn_used [OF False assms] have u: "v \<in> set (used_items s1)" .
  then have a: "v \<notin> set (available s1)" by (rule used_not_available)
  have "v \<notin> set xs \<and> v \<notin> set (available s2)"
    if "n \<le> card (set (available s1))" and "pulls n s1 g' = Inr (xs, s2, g2)"
    for n g' xs s2 g2
  proof -
    from pulls_keep_excluded [OF u that] have "v \<notin> set xs" and "v \<in> set (used_items s2)"
      by simp_all
    then show ?thesis by (simp add: used_not_available)
  qed
  with a show ?thesis by blast
qed

theorem drawn_value_excluded_by_equality_witness:
  "pull_random_item \<lparr>items = [Some (7::nat), Some 7, Some 9, Some 8], used_items = []\<rparr> (\<lambda>i. i)
     = Inr (Some 7, \<lparr>items = [Some 7, Some 7, Some 9, Some 8], used_items = [Some 7]\<rparr>,
            \<lambda>i. Suc i) \<and>
   available \<lparr>items = [Some (7::nat), Some 7, Some 9, Some 8], used_items = [Some 7]\<rparr>
     = [Some 9, Some 8] \<and>
   Some 7 \<notin> set (available
      \<lparr>items = [Some (7::nat), Some 7, Some 9, Some 8], used_items = [Some 7]\<rparr>) \<and>
   (\<exists>xs s2 g2.
      pulls 2 \<lparr>items = [Some (7::nat), Some 7, Some 9, Some 8], used_items = [Some 7]\<rparr>
        (\<lambda>i. i) = Inr (xs, s2, g2) \<and>
      Some 7 \<notin> set xs \<and> Some 7 \<notin> set (available s2))"
proof -
  let ?s = "\<lparr>items = [Some (7::nat), Some 7, Some 9, Some 8], used_items = []\<rparr>"
  let ?s1 = "\<lparr>items = [Some (7::nat), Some 7, Some 9, Some 8], used_items = [Some 7]\<rparr>"
  have h: "pull_random_item ?s (\<lambda>i. i) = Inr (Some 7, ?s1, \<lambda>i. Suc i)"
    by (simp add: pull_random_item_def available_def random_choice_def randbelow_def)
  have av: "available ?s1 = [Some 9, Some 8]"
    by (simp add: available_def)
  then have n: "2 \<le> card (set (available ?s1))"
    by simp
  from pulls_total [of 2 ?s1 "\<lambda>i. i"]
  obtain xs s2 g2 where r: "pulls 2 ?s1 (\<lambda>i. i) = Inr (xs, s2, g2)"
    by blast
  from drawn_value_excluded_by_equality [OF h] n r h av show ?thesis by blast
qed

subsection \<open>The length invariant\<close>

lemma cycle_inv_length: "cycle_inv s \<Longrightarrow> length (used_items s) \<le> length (items s)"
proof -
  assume "cycle_inv s"
  then have d: "distinct (used_items s)" and sub: "set (used_items s) \<subseteq> set (items s)"
    by (simp_all add: cycle_inv_def)
  have "length (used_items s) = card (set (used_items s))" using d by (simp add: distinct_card)
  also have "\<dots> \<le> card (set (items s))" using sub by (simp add: card_mono)
  also have "\<dots> \<le> length (items s)" by (rule card_length)
  finally show ?thesis .
qed

lemma cycle_inv_RandomItemSelector: "cycle_inv (RandomItemSelector its)"
  by (simp add: cycle_inv_def RandomItemSelector_def)

lemma cycle_inv_add_item: "cycle_inv s \<Longrightarrow> cycle_inv (add_item x s)"
  by (auto simp: cycle_inv_def add_item_def)

lemma cycle_inv_reset: "cycle_inv (reset s)"
  by (simp add: cycle_inv_def reset_def)

lemma cycle_inv_pull:
  assumes "cycle_inv s" and "pull_random_item s g = Inr (x, s', g')"
  shows "cycle_inv s'"
proof (cases "items s = []")
  case True
  with assms(2) show ?thesis by (auto simp: pull_random_item_empty cycle_inv_def)
next
  case False
  show ?thesis
  proof (cases "available s = []")
    case True
    with False pull_random_item_exhausted [of s g] assms(2) show ?thesis
      by (auto simp: cycle_inv_def)
  next
    case avail: False
    with False pull_random_item_fresh [of s g] assms show ?thesis
      by (auto simp: cycle_inv_def available_def)
  qed
qed

lemma apply_operation_inv:
  assumes "cycle_inv s"
  shows "\<exists>s'. apply_operation op s = Inr s' \<and> cycle_inv s'"
proof (cases op)
  case (Init its)
  then show ?thesis by (simp add: init_def cycle_inv_RandomItemSelector)
next
  case (AddItem x)
  with assms show ?thesis by (simp add: cycle_inv_add_item)
next
  case (Pull g)
  from pull_random_item_total [of s g] obtain x s' g'
    where p: "pull_random_item s g = Inr (x, s', g')" by blast
  with cycle_inv_pull [OF assms p] Pull show ?thesis by simp
next
  case Reset
  then show ?thesis by (simp add: cycle_inv_reset)
qed

lemma run_operations_inv:
  "cycle_inv s \<Longrightarrow> \<exists>s'. run_operations ops s = Inr s' \<and> cycle_inv s'"
proof (induction ops arbitrary: s)
  case Nil
  then show ?case by simp
next
  case (Cons op ops)
  from apply_operation_inv [OF Cons.prems, of op] obtain s1
    where s1: "apply_operation op s = Inr s1" "cycle_inv s1" by blast
  from Cons.IH [OF s1(2)] s1(1) show ?case by simp
qed

text \<open>
  Claim C8. Starting from a newly constructed selector, after every finite sequence
  of the class's operations (\<^verbatim>\<open>init\<close>, \<^verbatim>\<open>add_item\<close>, \<^verbatim>\<open>pull_random_item\<close> with any
  outcome of its random draw, \<^verbatim>\<open>reset\<close>) the run has raised no fault and
  \<open>used_items\<close> is no longer than \<open>items\<close>. The empty sequence is the initial state.
\<close>

theorem used_never_longer_than_items:
  "\<exists>s. run_operations ops (RandomItemSelector its) = Inr s \<and>
       length (used_items s) \<le> length (items s)"
  using run_operations_inv [OF cycle_inv_RandomItemSelector, of ops its]
  by (blast intro: cycle_inv_length)

subsection \<open>The content generator\<close>

lemma senseclue_text_spec:
  "senseclue_text clue sense = spec_generate (nonempty clue) (nonempty sense)"
  by (cases clue; cases sense) (auto simp: senseclue_text_def)

text \<open>
  Claim C6, as amended. \<^verbatim>\<open>get_senseclue\<close> draws a clue and then a sense, never faults,
  and composes the two draws by their truth value: a draw counts only when it is a
  non-empty string. It returns the clue and the sense joined by a single space when
  both count, the one that counts when only one does, and the empty string when
  neither does. For draws that are absent or non-empty this is the rule of the
  specification.
\<close>

theorem get_senseclue_composition:
  "\<exists>clue cs g1 sense ss g2.
     pull_random_item (clue_selector gen) g = Inr (clue, cs, g1) \<and>
     pull_random_item (sense_selector gen) g1 = Inr (sense, ss, g2) \<and>
     get_senseclue gen g =
       Inr (spec_generate (nonempty clue) (nonempty sense),
            \<lparr>clue_selector = cs, sense_selector = ss\<rparr>, g2)"
proof -
  from pull_random_item_total [of "clue_selector gen" g] obtain clue cs g1
    where p1: "pull_random_item (clue_selector gen) g = Inr (clue, cs, g1)" by blast
  from pull_random_item_total [of "sense_selector gen" g1] obtain sense ss g2
    where p2: "pull_random_item (sense_selector gen) g1 = Inr (sense, ss, g2)" by blast
  from p1 p2 have "get_senseclue gen g =
       Inr (spec_generate (nonempty clue) (nonempty sense),
            \<lparr>clue_selector = cs, sense_selector = ss\<rparr>, g2)"
    by (simp add: get_senseclue_def senseclue_text_spec)
  with p1 p2 show ?thesis by blast
qed

text \<open>
  Claim C6, as stated, fails when a pool holds the empty string. With a clue pool
  holding only the empty string and a sense pool holding only the string x, both
  draws are present, and the text returned is x alone, not the two joined by a
  space, which would be a space followed by x.
\<close>

theorem get_senseclue_empty_string_counterexample:
  "pull_random_item (clue_selector (SenseClueGenerator [''''] [''x''])) (\<lambda>i. 0)
     = Inr (Some '''', \<lparr>items = [Some ''''], used_items = [Some '''']\<rparr>, \<lambda>i. 0) \<and>
   pull_random_item (sense_selector (SenseClueGenerator [''''] [''x''])) (\<lambda>i. 0)
     = Inr (Some ''x'', \<lparr>items = [Some ''x''], used_items = [Some ''x'']\<rparr>, \<lambda>i. 0) \<and>
   get_senseclue (SenseClueGenerator [''''] [''x'']) (\<lambda>i. 0)
     = Inr (''x'',
            \<lparr>clue_selector = \<lparr>items = [Some ''''], used_items = [Some '''']\<rparr>,
             sense_selector = \<lparr>items = [Some ''x''], used_items = [Some ''x'']\<rparr>\<rparr>,
            \<lambda>i. 0) \<and>
   spec_generate (Some '''') (Some ''x'') = '' x'' \<and>
   ''x'' \<noteq> spec_generate (Some '''') (Some ''x'')"
  by (simp add: get_senseclue_def senseclue_text_def SenseClueGenerator_def
      RandomItemSelector_def pull_random_item_def available_def random_choice_def
      randbelow_def)

subsection \<open>Castle navigation\<close>

lemma pull_random_item_nonempty:
  assumes "items s \<noteq> []"
  shows "\<exists>x s' g'. pull_random_item s g = Inr (x, s', g') \<and> x \<in> set (items s)"
proof (cases "available s = []")
  case True
  with assms pull_random_item_exhausted [of s g] show ?thesis by blast
next
  case False
  with assms pull_random_item_fresh [of s g] obtain c g'
    where "c \<in> set (available s)"
      "pull_random_item s g = Inr (c, s\<lparr>used_items := used_items s @ [c]\<rparr>, g')"
    by blast
  then show ?thesis by (auto simp: available_def)
qed

lemma pull_random_item_present:
  assumes "items s \<noteq> []" and "None \<notin> set (items s)"
  shows "\<exists>x s' g'. pull_random_item s g = Inr (Some x, s', g') \<and> Some x \<in> set (items s)"
proof -
  from pull_random_item_nonempty [OF assms(1), of g] obtain v s' g'
    where p: "pull_random_item s g = Inr (v, s', g')" and v: "v \<in> set (items s)"
    by blast
  have "v \<noteq> None"
  proof
    assume "v = None"
    with v assms(2) show False by simp
  qed
  then obtain x where "v = Some x" by auto
  with p v show ?thesis by blast
qed



lemma run_encounter_same:
  assumes "rng wa = rng wb" and "generator wa = generator wb"
  shows "\<exists>t g' gen'.
           run_encounter e wa =
             Inr (CONTINUE, wa\<lparr>rng := g', generator := gen', stdout := stdout wa @ [t]\<rparr>) \<and>
           run_encounter e wb =
             Inr (CONTINUE, wb\<lparr>rng := g', generator := gen', stdout := stdout wb @ [t]\<rparr>)"
proof (cases e)
  case DefaultEncounter
  from pull_random_item_total [of "clue_selector (generator wa)" "rng wa"] obtain clue cs g1
    where p1: "pull_random_item (clue_selector (generator wa)) (rng wa) = Inr (clue, cs, g1)"
    by blast
  from pull_random_item_total [of "sense_selector (generator wa)" g1] obtain sense ss g2
    where p2: "pull_random_item (sense_selector (generator wa)) g1 = Inr (sense, ss, g2)"
    by blast
  let ?upd = "\<lambda>w. w\<lparr>rng := g2, generator := \<lparr>clue_selector = cs, sense_selector = ss\<rparr>,
                 stdout := stdout w @ [encounter_text clue sense]\<rparr>"
  from p1 p2 DefaultEncounter have "run_encounter e wa = Inr (CONTINUE, ?upd wa)"
    by simp
  moreover from p1 p2 assms DefaultEncounter have "run_encounter e wb = Inr (CONTINUE, ?upd wb)"
    by simp
  ultimately show ?thesis by blast
qed

lemma enter_room_same:
  assumes "rng wa = rng wb" and "generator wa = generator wb"
  shows "\<exists>wa' wb'. enter_room rm c wa = Inr (CONTINUE, c, wa') \<and>
           enter_room rm c wb = Inr (CONTINUE, c, wb') \<and>
           rng wa' = rng wb' \<and> generator wa' = generator wb'"
proof -
  let ?a = "wa\<lparr>stdout := stdout wa @ [''You step through and enter: '' @ name rm]\<rparr>"
  let ?b = "wb\<lparr>stdout := stdout wb @ [''You step through and enter: '' @ name rm]\<rparr>"
  have "rng ?a = rng ?b" and "generator ?a = generator ?b" using assms by simp_all
  from run_encounter_same [OF this, of "encounter rm"] obtain t g' gen'
    where "run_encounter (encounter rm) ?a =
             Inr (CONTINUE, ?a\<lparr>rng := g', generator := gen', stdout := stdout ?a @ [t]\<rparr>)"
      and "run_encounter (encounter rm) ?b =
             Inr (CONTINUE, ?b\<lparr>rng := g', generator := gen', stdout := stdout ?b @ [t]\<rparr>)"
    by blast
  then show ?thesis
    by (simp add: enter_room_def visit_room_def)
qed

lemma door_prompt_in_range:
  "door_prompt to_int n inp out = Inr (choice, rest, out') \<Longrightarrow> 1 \<le> choice \<and> choice \<le> n"
  by (induction to_int n inp out rule: door_prompt.induct)
     (auto simp: Let_def split: option.splits if_splits)

lemma select_door_valid:
  assumes "select_door to_int w = Inr (door, w1)"
  shows "1 \<le> door \<and> door \<le> fst (randint 2 4 (rng w)) \<and> fst (randint 2 4 (rng w)) \<le> 4"
proof -
  obtain n g where r: "randint 2 4 (rng w) = (n, g)" by (cases "randint 2 4 (rng w)")
  then have "n \<le> 4"
    by (auto simp: randint_def randbelow_def)
  moreover from assms r have "1 \<le> door \<and> door \<le> n"
    by (auto simp: select_door_def split: sum.splits dest: door_prompt_in_range)
  ultimately show ?thesis using r by simp
qed

text \<open>
  Claim C4, as amended. On a selector whose items list is non-empty and holds no
  \<^verbatim>\<open>None\<close> entry, \<^verbatim>\<open>pull_random_item\<close> returns an item of the pool, never \<^verbatim>\<open>None\<close>.
  Hence, for a Castle whose room pool is non-empty and holds no \<^verbatim>\<open>None\<close> entry,
  \<^verbatim>\<open>next_room\<close> never returns \<open>END\<close>: whenever the door prompt returns, the call
  continues with the drawn room (the branch for an absent room is not taken) and
  returns \<open>CONTINUE\<close>.
\<close>

theorem nonempty_pool_never_absent:
  assumes "items s \<noteq> []" and "None \<notin> set (items s)"
    and "items (room_selector c) \<noteq> []" and "None \<notin> set (items (room_selector c))"
  shows "(\<exists>x s' g'. pull_random_item s g = Inr (Some x, s', g') \<and> Some x \<in> set (items s)) \<and>
         (\<forall>c' w'. next_room to_int c w \<noteq> Inr (END, c', w')) \<and>
         (\<forall>door w1. select_door to_int w = Inr (door, w1) \<longrightarrow>
            (\<exists>rm sel g1 w'.
               Some rm \<in> set (items (room_selector c)) \<and>
               pull_random_item (room_selector c) (rng w1) = Inr (Some rm, sel, g1) \<and>
               next_room to_int c w
                 = enter_room rm (c\<lparr>room_selector := sel\<rparr>) (w1\<lparr>rng := g1\<rparr>) \<and>
               next_room to_int c w = Inr (CONTINUE, c\<lparr>room_selector := sel\<rparr>, w')))"
proof -
  have step: "\<exists>rm sel g1 w'.
               Some rm \<in> set (items (room_selector c)) \<and>
               pull_random_item (room_selector c) (rng w1) = Inr (Some rm, sel, g1) \<and>
               next_room to_int c w
                 = enter_room rm (c\<lparr>room_selector := sel\<rparr>) (w1\<lparr>rng := g1\<rparr>) \<and>
               next_room to_int c w = Inr (CONTINUE, c\<lparr>room_selector := sel\<rparr>, w')"
    if sd: "select_door to_int w = Inr (door, w1)" for door w1
  proof -
    from pull_random_item_present [OF assms(3,4), of "rng w1"] obtain rm sel g1
      where p: "pull_random_item (room_selector c) (rng w1) = Inr (Some rm, sel, g1)"
        and rm: "Some rm \<in> set (items (room_selector c))"
      by blast
    from sd p have n: "next_room to_int c w =
        enter_room rm (c\<lparr>room_selector := sel\<rparr>) (w1\<lparr>rng := g1\<rparr>)"
      by (simp add: next_room_def)
    from enter_room_same [of "w1\<lparr>rng := g1\<rparr>" "w1\<lparr>rng := g1\<rparr>" rm "c\<lparr>room_selector := sel\<rparr>"]
    obtain w' where "enter_room rm (c\<lparr>room_selector := sel\<rparr>) (w1\<lparr>rng := g1\<rparr>)
        = Inr (CONTINUE, c\<lparr>room_selector := sel\<rparr>, w')"
      by auto
    with p rm n show ?thesis by auto
  qed
  have "next_room to_int c w \<noteq> Inr (END, c', w')" for c' w'
  proof (cases "select_door to_int w")
    case (Inl e)
    then show ?thesis by (simp add: next_room_def)
  next
    case (Inr r)
    then obtain door w1 where "select_door to_int w = Inr (door, w1)" by (cases r) auto
    from step [OF this] obtain sel w''
      where "next_room to_int c w = Inr (CONTINUE, c\<lparr>room_selector := sel\<rparr>, w'')"
      by blast
    then show ?thesis by simp
  qed
  with step pull_random_item_present [OF assms(1,2), of g] show ?thesis by blast
qed

theorem nonempty_pool_never_absent_witness:
  "items \<lparr>items = [Some (5::nat)], used_items = [Some 5]\<rparr> \<noteq> [] \<and>
   None \<notin> set (items \<lparr>items = [Some (5::nat)], used_items = [Some 5]\<rparr>) \<and>
   items (room_selector (Castle None)) \<noteq> [] \<and>
   None \<notin> set (items (room_selector (Castle None))) \<and>
   (\<exists>x s' g'. pull_random_item \<lparr>items = [Some (5::nat)], used_items = [Some 5]\<rparr> (\<lambda>i. i)
      = Inr (Some x, s', g')) \<and>
   (\<exists>door w1 c' w'.
      select_door (\<lambda>l. if l = ''1'' then Some 1 else None)
        \<lparr>rng = \<lambda>i. i, stdin = [''1''], stdout = [],
         generator = SenseClueGenerator [''a clue''] [''a sense'']\<rparr> = Inr (door, w1) \<and>
      next_room (\<lambda>l. if l = ''1'' then Some 1 else None) (Castle None)
        \<lparr>rng = \<lambda>i. i, stdin = [''1''], stdout = [],
         generator = SenseClueGenerator [''a clue''] [''a sense'']\<rparr> = Inr (CONTINUE, c', w'))"
proof -
  let ?T = "\<lambda>l. if l = ''1'' then Some (1::int) else None"
  let ?W = "\<lparr>rng = \<lambda>i. i, stdin = [''1''], stdout = [],
         generator = SenseClueGenerator [''a clue''] [''a sense'']\<rparr>"
  let ?s = "\<lparr>items = [Some (5::nat)], used_items = [Some 5]\<rparr>"
  have h1: "items ?s \<noteq> []" by simp
  have h2: "None \<notin> set (items ?s)" by simp
  have h3: "items (room_selector (Castle None)) \<noteq> []"
    by (simp add: Castle_def RandomItemSelector_def rooms_def)
  have h4: "None \<notin> set (items (room_selector (Castle None)))"
    by (simp add: Castle_def RandomItemSelector_def rooms_def)
  have "\<exists>door w1. select_door ?T ?W = Inr (door, w1)"
    by (simp add: select_door_def randint_def randbelow_def)
  then obtain door w1 where sd: "select_door ?T ?W = Inr (door, w1)" by blast
  from nonempty_pool_never_absent [OF h1 h2 h3 h4, of "\<lambda>i. i" ?T ?W] sd h1 h2 h3 h4
  show ?thesis by blast
qed

text \<open>
  Claim C4, as stated, fails when a pool holds \<^verbatim>\<open>None\<close> as an item. The pool with the
  single entry \<^verbatim>\<open>None\<close> is non-empty, and the call returns the drawn entry, which is
  \<^verbatim>\<open>None\<close>; a Castle built on that pool has a non-empty room pool, and \<^verbatim>\<open>next_room\<close>
  takes the branch for an absent room and returns \<open>END\<close>.
\<close>

theorem none_item_counterexample:
  "items \<lparr>items = [None :: nat option], used_items = []\<rparr> \<noteq> [] \<and>
   (\<exists>g'. pull_random_item \<lparr>items = [None :: nat option], used_items = []\<rparr> (\<lambda>i. i)
      = Inr (None, \<lparr>items = [None], used_items = [None]\<rparr>, g')) \<and>
   items (room_selector (Castle (Some [None]))) \<noteq> [] \<and>
   (\<exists>w'. next_room (\<lambda>l. if l = ''1'' then Some 1 else None) (Castle (Some [None]))
        \<lparr>rng = \<lambda>i. i, stdin = [''1''], stdout = [],
         generator = SenseClueGenerator [''a clue''] [''a sense'']\<rparr>
      = Inr (END, \<lparr>room_selector = \<lparr>items = [None], used_items = []\<rparr>\<rparr>, w'))"
  by (simp add: next_room_def no_rooms_available_def select_door_def randint_def
      randbelow_def Castle_def RandomItemSelector_def pull_random_item_def available_def
      random_choice_def reset_def)



end
